theory Spec2Isabelle
  imports Main "HOL-Library.Word" "HOL-Library.Monad_Syntax"
begin

section \<open>The LRU cache of webmafia/lru\<close>

text \<open>
  The cache keeps three parallel slices \<open>keys\<close>, \<open>vals\<close> and \<open>lastUse\<close> and a 64-bit
  counter \<open>tick\<close>. The model keeps the three slices as three lists, the counter as a
  \<open>64 word\<close> (so \<open>+\<close> and \<open>-\<close> wrap as Go's \<open>uint64\<close> does) and adds what the Go slice
  header and the callback carry besides: \<open>kcap\<close> is \<open>cap(c.keys)\<close>, the only capacity the
  code reads; \<open>evicted\<close> says whether a callback was given (\<open>c.evicted != nil\<close>); \<open>calls\<close>
  lists the calls made to the callback so far, oldest first.

  An operation that does not return normally in Go (an index out of range, a \<open>make\<close>
  that panics, a recursion or loop without end) has the value \<open>None\<close>.
\<close>

record ('k, 'v) lru =
  keys :: "'k list"
  vals :: "'v list"
  lastUse :: "64 word list"
  tick :: "64 word"
  kcap :: nat
  evicted :: bool
  calls :: "('k \<times> 'v) list"

text \<open>
  Go's \<open>make\<close> panics on a negative capacity, and with "cap out of range" on one whose
  slice would be larger than the runtime can allocate. The runtime is not part of the
  repository: on the 64-bit targets its limit is \<open>2 ^ 48\<close> bytes, which for the slice
  \<open>lastUse\<close> of 8-byte ticks is a capacity of \<open>2 ^ 45\<close>, whatever the key and value
  types are. (Wider key or value types lower the limit for their slices, and the
  machine may run out of memory below it; neither is modelled.)
\<close>

definition make_limit :: int where
  "make_limit = 2 ^ 45"

text \<open>
  \<open>New\<close>: three empty slices of the given capacity, unless \<open>make\<close> panics.
  The variadic \<open>evicted\<close> argument is the flag \<open>ev\<close> (a callback was passed or not).
\<close>

definition New :: "int \<Rightarrow> bool \<Rightarrow> ('k, 'v) lru option" where
  "New capacity ev =
     (if capacity < 0 \<or> make_limit < capacity then None
      else Some \<lparr>keys = [], vals = [], lastUse = [], tick = 0,
                 kcap = nat capacity, evicted = ev, calls = []\<rparr>)"

definition Len :: "('k, 'v) lru \<Rightarrow> nat" where
  "Len c = length (keys c)"

definition Cap :: "('k, 'v) lru \<Rightarrow> nat" where
  "Cap c = length (keys c)"

text \<open>\<open>Reset\<close> truncates the slices (their capacity stays) and zeroes the counter.\<close>

definition Reset :: "('k, 'v) lru \<Rightarrow> ('k, 'v) lru" where
  "Reset c = c\<lparr>keys := [], vals := [], lastUse := [], tick := 0\<rparr>"

text \<open>
  The scan \<open>for i := range xs { if xs[i] == x { ... return } }\<close> of \<open>Has\<close>, \<open>Get\<close>,
  \<open>Replace\<close>, \<open>Remove\<close> and \<open>find\<close>: the first index holding \<open>x\<close>.
\<close>

fun scan_from :: "nat \<Rightarrow> 'a list \<Rightarrow> 'a \<Rightarrow> nat option" where
  "scan_from i [] x = None"
| "scan_from i (y # ys) x = (if y = x then Some i else scan_from (Suc i) ys x)"

definition scan :: "'a list \<Rightarrow> 'a \<Rightarrow> nat option" where
  "scan xs x = scan_from 0 xs x"

definition Has :: "('k, 'v) lru \<Rightarrow> 'k \<Rightarrow> bool" where
  "Has c key = (scan (keys c) key \<noteq> None)"

definition oldestTick :: "('k, 'v) lru \<Rightarrow> 64 word" where
  "oldestTick c = tick c - of_nat (Len c)"

definition find_lru :: "('k, 'v) lru \<Rightarrow> 64 word \<Rightarrow> nat option" where
  "find_lru c t = scan (lastUse c) t"

definition evict :: "('k, 'v) lru \<Rightarrow> 'k \<Rightarrow> 'v \<Rightarrow> ('k, 'v) lru" where
  "evict c key val = (if evicted c then c\<lparr>calls := calls c @ [(key, val)]\<rparr> else c)"

definition repair :: "('k, 'v) lru \<Rightarrow> ('k, 'v) lru" where
  "repair c = c\<lparr>lastUse := map of_nat [0..<length (lastUse c)], tick := of_nat (Len c)\<rparr>"

text \<open>
  The loop of \<open>preventTickOverflow\<close>, from index \<open>i\<close> on, with \<open>t\<close> the oldest tick
  computed before the loop: an entry below \<open>t\<close> ends the loop with a repair, any other
  entry has \<open>t\<close> added to it; after the last entry the counter becomes the length.
\<close>

function rebase_from :: "nat \<Rightarrow> 64 word \<Rightarrow> ('k, 'v) lru \<Rightarrow> ('k, 'v) lru" where
  "rebase_from i t c =
     (if i < length (lastUse c)
      then (if lastUse c ! i < t then repair c
            else rebase_from (Suc i) t (c\<lparr>lastUse := (lastUse c)[i := lastUse c ! i + t]\<rparr>))
      else c\<lparr>tick := of_nat (Len c)\<rparr>)"
  by pat_completeness auto
termination
  by (relation "measure (\<lambda>(i, t, c). length (lastUse c) - i)") auto

declare rebase_from.simps [simp del]

definition preventTickOverflow :: "('k, 'v) lru \<Rightarrow> ('k, 'v) lru" where
  "preventTickOverflow c = (if tick c \<noteq> - 1 then c else rebase_from 0 (oldestTick c) c)"

definition nextTick :: "('k, 'v) lru \<Rightarrow> ('k, 'v) lru \<times> 64 word" where
  "nextTick c = (let c1 = preventTickOverflow c in (c1\<lparr>tick := tick c1 + 1\<rparr>, tick c1))"

text \<open>
  \<open>remove\<close>: the slot \<open>idx\<close> takes the last slot's key, value and tick, the slices lose
  their last element, and the removed pair goes to the callback. The zero values the
  code writes into the last slot lie beyond the new length and are never read again.
  Every index the code uses must be in range, or Go panics.
\<close>

definition remove_lru :: "('k, 'v) lru \<Rightarrow> nat \<Rightarrow> ('k, 'v) lru option" where
  "remove_lru c idx =
     (let end = length (keys c) - 1 in
      if idx < length (keys c) \<and> idx < length (vals c) \<and> end < length (vals c)
         \<and> idx < length (lastUse c) \<and> end < length (lastUse c)
      then Some (evict (c\<lparr>keys := take end ((keys c)[idx := keys c ! end]),
                          vals := take end ((vals c)[idx := vals c ! end]),
                          lastUse := take end ((lastUse c)[idx := lastUse c ! end])\<rparr>)
                       (keys c ! idx) (vals c ! idx))
      else None)"

partial_function (option) removeOldest :: "('k, 'v) lru \<Rightarrow> ('k, 'v) lru option" where
  "removeOldest c =
     (if length (keys c) = 0 then Some c
      else case find_lru c (oldestTick c) of
             Some idx \<Rightarrow> remove_lru c idx
           | None \<Rightarrow> removeOldest (repair c))"

declare removeOldest.simps [code]

text \<open>
  Go's built-in \<open>append\<close> of one element keeps the capacity while there is room and
  otherwise moves the slice to a larger array whose capacity the Go runtime chooses.
  The runtime is not part of the repository: its choice is the parameter \<open>grow\<close>, a
  function of the length needed.
\<close>

definition append_cap :: "(nat \<Rightarrow> nat) \<Rightarrow> nat \<Rightarrow> nat \<Rightarrow> nat" where
  "append_cap grow len cp = (if len < cp then cp else grow (Suc len))"

text \<open>
  \<open>append\<close>: the key and the value are appended before \<open>nextTick\<close> runs, the tick after.
\<close>

definition append_lru ::
    "(nat \<Rightarrow> nat) \<Rightarrow> ('k, 'v) lru \<Rightarrow> 'k \<Rightarrow> 'v \<Rightarrow> ('k, 'v) lru option" where
  "append_lru grow c key val = do {
     c1 \<leftarrow> (if length (keys c) \<ge> kcap c then removeOldest c else Some c);
     let c2 = c1\<lparr>keys := keys c1 @ [key],
                 kcap := append_cap grow (length (keys c1)) (kcap c1),
                 vals := vals c1 @ [val]\<rparr>;
     let (c3, t) = nextTick c2;
     Some (c3\<lparr>lastUse := lastUse c3 @ [t]\<rparr>)
   }"

text \<open>
  \<open>Get\<close> returns \<open>(val, ok)\<close>: \<open>Some v\<close> is \<open>(v, true)\<close> and \<open>None\<close> is the miss
  \<open>(zero value, false)\<close>.
\<close>

definition Get :: "('k, 'v) lru \<Rightarrow> 'k \<Rightarrow> (('k, 'v) lru \<times> 'v option) option" where
  "Get c key =
     (case scan (keys c) key of
        None \<Rightarrow> Some (c, None)
      | Some i \<Rightarrow>
          (let (c1, t) = nextTick c in
           if i < length (lastUse c1) \<and> i < length (vals c1)
           then Some (c1\<lparr>lastUse := (lastUse c1)[i := t]\<rparr>, Some (vals c1 ! i))
           else None))"

text \<open>
  \<open>GetOrSet\<close>: the setter returns a value and an error (\<open>None\<close> is \<open>nil\<close>); both are
  handed back as the setter gave them.
\<close>

definition GetOrSet ::
    "(nat \<Rightarrow> nat) \<Rightarrow> ('k, 'v) lru \<Rightarrow> 'k \<Rightarrow> ('k \<Rightarrow> 'v \<times> 'e option)
       \<Rightarrow> (('k, 'v) lru \<times> 'v \<times> 'e option) option" where
  "GetOrSet grow c key setter = do {
     (c1, r) \<leftarrow> Get c key;
     case r of
       Some v \<Rightarrow> Some (c1, v, None)
     | None \<Rightarrow>
         (let (val, err) = setter key in
          if err = None
          then do { c2 \<leftarrow> append_lru grow c1 key val; Some (c2, val, err) }
          else Some (c1, val, err))
   }"

definition Set_lru ::
    "(nat \<Rightarrow> nat) \<Rightarrow> ('k, 'v) lru \<Rightarrow> 'k \<Rightarrow> 'v \<Rightarrow> (('k, 'v) lru \<times> bool) option" where
  "Set_lru grow c key val =
     (if Has c key then Some (c, False)
      else do { c1 \<leftarrow> append_lru grow c key val; Some (c1, True) })"

definition Replace ::
    "(nat \<Rightarrow> nat) \<Rightarrow> ('k, 'v) lru \<Rightarrow> 'k \<Rightarrow> 'v \<Rightarrow> (('k, 'v) lru \<times> bool) option" where
  "Replace grow c key val =
     (case scan (keys c) key of
        Some i \<Rightarrow>
          (if i < length (vals c)
           then (let old = vals c ! i;
                     (c1, t) = nextTick (c\<lparr>vals := (vals c)[i := val]\<rparr>)
                 in if i < length (lastUse c1)
                    then Some (evict (c1\<lparr>lastUse := (lastUse c1)[i := t]\<rparr>) key old, True)
                    else None)
           else None)
      | None \<Rightarrow> do { c1 \<leftarrow> append_lru grow c key val; Some (c1, False) })"

definition Remove :: "('k, 'v) lru \<Rightarrow> 'k \<Rightarrow> (('k, 'v) lru \<times> bool) option" where
  "Remove c key =
     (case scan (keys c) key of
        Some i \<Rightarrow> do { c1 \<leftarrow> remove_lru c i; Some (c1, True) }
      | None \<Rightarrow> Some (c, False))"

definition RemoveAll :: "('k, 'v) lru \<Rightarrow> ('k, 'v) lru option" where
  "RemoveAll c =
     (if length (vals c) < length (keys c) then None
      else Some (Reset (fold (\<lambda>(k, v) c'. evict c' k v) (zip (keys c) (vals c)) c)))"

text \<open>
  \<open>Resize\<close>: the loop \<open>for capacity < c.Len() { c.removeOldest() }\<close>, then fresh slices
  of the new capacity (unless \<open>make\<close> panics) holding the old contents, then
  \<open>Reset\<close>, then the fresh slices are stored. The counter is not stored again after
  \<open>Reset\<close>.
\<close>

partial_function (option) shrink :: "int \<Rightarrow> ('k, 'v) lru \<Rightarrow> ('k, 'v) lru option" where
  "shrink capacity c =
     (if capacity < int (Len c) then Option.bind (removeOldest c) (shrink capacity)
      else Some c)"

declare shrink.simps [code]

definition Resize :: "(nat \<Rightarrow> nat) \<Rightarrow> int \<Rightarrow> ('k, 'v) lru \<Rightarrow> ('k, 'v) lru option" where
  "Resize grow capacity c =
     (if int (kcap c) = capacity then Some c
      else do {
        c1 \<leftarrow> shrink capacity c;
        if capacity < 0 \<or> make_limit < capacity then None
        else Some ((Reset c1)\<lparr>keys := keys c1,
                     kcap := (if length (keys c1) \<le> nat capacity then nat capacity
                              else grow (length (keys c1))),
                     vals := vals c1,
                     lastUse := lastUse c1\<rparr>)
      })"

text \<open>
  The iterators, as the list of pairs handed to a consumer that never stops the
  iteration (one that stops sees a prefix of it).
\<close>

definition Iterate :: "('k, 'v) lru \<Rightarrow> ('k \<times> 'v) list option" where
  "Iterate c =
     (if length (vals c) < length (keys c) then None else Some (zip (keys c) (vals c)))"

fun walk :: "nat \<Rightarrow> (64 word \<Rightarrow> 64 word) \<Rightarrow> 64 word \<Rightarrow> ('k, 'v) lru \<Rightarrow> ('k \<times> 'v) list option" where
  "walk 0 next t c = Some []"
| "walk (Suc n) next t c =
     (case find_lru c t of
        None \<Rightarrow> Some []
      | Some idx \<Rightarrow>
          (if idx < length (keys c) \<and> idx < length (vals c)
           then map_option ((#) (keys c ! idx, vals c ! idx)) (walk n next (next t) c)
           else None))"

definition IterateAsc :: "('k, 'v) lru \<Rightarrow> ('k \<times> 'v) list option" where
  "IterateAsc c = walk (length (keys c)) (\<lambda>t. t + 1) (oldestTick c) c"

definition IterateDesc :: "('k, 'v) lru \<Rightarrow> ('k \<times> 'v) list option" where
  "IterateDesc c = walk (length (keys c)) (\<lambda>t. t - 1) (tick c - 1) c"


section \<open>Scenarios and reference notions\<close>

text \<open>
  The loops of the package's example and benchmarks, which call \<open>Replace\<close> or \<open>Set\<close>
  once per key and drop the returned flag.
\<close>

fun Replace_each ::
    "(nat \<Rightarrow> nat) \<Rightarrow> 'k list \<Rightarrow> 'v \<Rightarrow> ('k, 'v) lru \<Rightarrow> ('k, 'v) lru option" where
  "Replace_each grow [] v c = Some c"
| "Replace_each grow (k # ks) v c =
     do { (c1, _) \<leftarrow> Replace grow c k v; Replace_each grow ks v c1 }"

fun Set_each ::
    "(nat \<Rightarrow> nat) \<Rightarrow> 'k list \<Rightarrow> 'v \<Rightarrow> ('k, 'v) lru \<Rightarrow> ('k, 'v) lru option" where
  "Set_each grow [] v c = Some c"
| "Set_each grow (k # ks) v c =
     do { (c1, _) \<leftarrow> Set_lru grow c k v; Set_each grow ks v c1 }"

text \<open>
  The function \<open>Example\<close> of the package: a cache of capacity 8 with a callback that
  prints each evicted key, \<open>Replace\<close> for the keys 1 to 10, then the length and the
  ascending iteration are printed. The result is what it prints: the evicted pairs,
  the length, the pairs iterated.
\<close>

definition Example ::
    "(nat \<Rightarrow> nat) \<Rightarrow> ((int \<times> unit) list \<times> nat \<times> (int \<times> unit) list) option" where
  "Example grow = do {
     c \<leftarrow> New 8 True;
     c \<leftarrow> Replace_each grow [1, 2, 3, 4, 5, 6, 7, 8, 9, 10] () c;
     asc \<leftarrow> IterateAsc c;
     Some (calls c, Len c, asc)
   }"

text \<open>The three slices have the same length.\<close>

definition aligned :: "('k, 'v) lru \<Rightarrow> bool" where
  "aligned c = (length (vals c) = length (keys c) \<and> length (lastUse c) = length (keys c))"

text \<open>The data-model invariant "every recency tick is below the clock".\<close>

definition ticks_below_clock :: "('k, 'v) lru \<Rightarrow> bool" where
  "ticks_below_clock c = list_all (\<lambda>t. t < tick c) (lastUse c)"

text \<open>
  The order of most recent touch, as the specification words it: given the keys touched
  so far, in the order of the touches, the live keys each at the place of its last touch.
\<close>

definition spec_touch_order :: "'k list \<Rightarrow> 'k list \<Rightarrow> 'k list" where
  "spec_touch_order touches live = filter (\<lambda>k. k \<in> set live) (remdups touches)"

text \<open>The key of the live entry whose recency tick is smallest, as the specification words it.\<close>

definition spec_smallest_tick_key :: "('k, 'v) lru \<Rightarrow> 'k option" where
  "spec_smallest_tick_key c =
     (case lastUse c of
        [] \<Rightarrow> None
      | t # ts \<Rightarrow> map_option (\<lambda>i. keys c ! i) (scan (lastUse c) (fold min ts t)))"

text \<open>A setter that fails and still hands back a value other than the zero value.\<close>

definition failing_setter :: "int \<Rightarrow> int \<times> string option" where
  "failing_setter k = (7, Some ''boom'')"

text \<open>
  The inserting operations the capacity bound speaks of, and a run of them in order.
\<close>

datatype ('k, 'v, 'e) ins =
    InsSet 'k 'v
  | InsReplace 'k 'v
  | InsGetOrSet 'k "'k \<Rightarrow> 'v \<times> 'e option"

fun do_ins :: "(nat \<Rightarrow> nat) \<Rightarrow> ('k, 'v) lru \<Rightarrow> ('k, 'v, 'e) ins \<Rightarrow> ('k, 'v) lru option" where
  "do_ins grow c (InsSet k v) = map_option fst (Set_lru grow c k v)"
| "do_ins grow c (InsReplace k v) = map_option fst (Replace grow c k v)"
| "do_ins grow c (InsGetOrSet k setter) = map_option fst (GetOrSet grow c k setter)"

fun run_ins :: "(nat \<Rightarrow> nat) \<Rightarrow> ('k, 'v, 'e) ins list \<Rightarrow> ('k, 'v) lru \<Rightarrow> ('k, 'v) lru option" where
  "run_ins grow [] c = Some c"
| "run_ins grow (i # ops) c = Option.bind (do_ins grow c i) (run_ins grow ops)"

text \<open>The slices are aligned and the cache is within its positive capacity.\<close>

definition fits :: "('k, 'v) lru \<Rightarrow> bool" where
  "fits c = (aligned c \<and> 0 < kcap c \<and> Len c \<le> kcap c)"

text \<open>
  Concrete caches used below: a fresh one of capacity 2 without callback; one of
  capacity 2 holding the pair (1, 10); one of capacity 4 whose ticks 5, 4, 2, 6 have a
  gap below the clock 7.
\<close>

definition cache0 :: "(int, int) lru" where
  "cache0 = \<lparr>keys = [], vals = [], lastUse = [], tick = 0, kcap = 2,
              evicted = False, calls = []\<rparr>"

definition cache1 :: "(int, int) lru" where
  "cache1 = \<lparr>keys = [1], vals = [10], lastUse = [0], tick = 1, kcap = 2,
              evicted = True, calls = []\<rparr>"

definition cache_gap :: "(int, unit) lru" where
  "cache_gap = \<lparr>keys = [6, 5, 3, 7], vals = [(), (), (), ()], lastUse = [5, 4, 2, 6],
                 tick = 7, kcap = 4, evicted = True, calls = [(1, ()), (2, ()), (4, ())]\<rparr>"

section \<open>The scans and the slices\<close>

lemma scan_from_Some:
  "scan_from i xs x = Some j \<Longrightarrow> i \<le> j \<and> j < i + length xs"
  by (induction xs arbitrary: i) (fastforce split: if_splits)+

lemma scan_Some_less: "scan xs x = Some j \<Longrightarrow> j < length xs"
  using scan_from_Some [of 0 xs x j] by (simp add: scan_def)

lemma scan_from_upt:
  "j \<le> i \<Longrightarrow> i < n \<Longrightarrow> n \<le> 2 ^ 64
     \<Longrightarrow> scan_from j (map of_nat [j..<n]) (of_nat i :: 64 word) = Some i"
proof (induction "i - j" arbitrary: j)
  case 0
  then have "j = i" by simp
  with 0 show ?case by (simp add: upt_conv_Cons)
next
  case (Suc d)
  then have lt: "j < i" by simp
  with Suc have ne: "(of_nat j :: 64 word) \<noteq> of_nat i"
    by (simp add: word_of_nat_eq_iff take_bit_nat_eq_self)
  from Suc lt have "scan_from (Suc j) (map of_nat [Suc j..<n]) (of_nat i :: 64 word) = Some i"
    by simp
  with lt Suc.prems ne show ?case by (simp add: upt_conv_Cons)
qed

section \<open>Repair renumbers in storage order\<close>

lemma find_repair:
  "i < length (lastUse c) \<Longrightarrow> length (lastUse c) \<le> 2 ^ 64
     \<Longrightarrow> find_lru (repair c) (of_nat i) = Some i"
  using scan_from_upt [of 0 i "length (lastUse c)"]
  by (simp add: find_lru_def repair_def scan_def)

lemma find_repair_zero:
  "lastUse c \<noteq> [] \<Longrightarrow> find_lru (repair c) (oldestTick (repair c)) = Some 0"
proof -
  assume "lastUse c \<noteq> []"
  then have "[0..<length (lastUse c)] = 0 # [Suc 0..<length (lastUse c)]"
    by (simp add: upt_conv_Cons)
  then show ?thesis
    by (simp add: find_lru_def repair_def oldestTick_def Len_def scan_def)
qed

lemma walk_repair:
  "aligned c \<Longrightarrow> length (keys c) \<le> 2 ^ 64 \<Longrightarrow> i + m \<le> length (keys c)
     \<Longrightarrow> walk m (\<lambda>t. t + 1) (of_nat i) (repair c)
         = Some (take m (drop i (zip (keys c) (vals c))))"
proof (induction m arbitrary: i)
  case 0
  then show ?case by simp
next
  case (Suc m)
  then have i: "i < length (keys c)" by simp
  with Suc.prems have f: "find_lru (repair c) (of_nat i) = Some i"
    by (simp add: find_repair aligned_def)
  have "walk m (\<lambda>t. t + 1) (of_nat (Suc i)) (repair c)
          = Some (take m (drop (Suc i) (zip (keys c) (vals c))))"
    using Suc.prems by (intro Suc.IH) simp_all
  moreover have "drop i (zip (keys c) (vals c))
          = (keys c ! i, vals c ! i) # drop (Suc i) (zip (keys c) (vals c))"
    using i Suc.prems(1) by (simp add: aligned_def Cons_nth_drop_Suc [symmetric])
  ultimately show ?case using f i Suc.prems(1)
    by (simp add: aligned_def repair_def add.commute)
qed

lemma IterateAsc_repair:
  "aligned c \<Longrightarrow> length (keys c) \<le> 2 ^ 64
     \<Longrightarrow> IterateAsc (repair c) = Some (zip (keys c) (vals c))"
  using walk_repair [of c 0 "length (keys c)"]
  by (simp add: IterateAsc_def oldestTick_def Len_def repair_def aligned_def)

section \<open>The operations return on aligned caches and keep the capacity\<close>

lemma remove_lru_aligned:
  assumes "aligned c" "idx < length (keys c)"
  shows "\<exists>c'. remove_lru c idx = Some c' \<and> aligned c'
            \<and> length (keys c') = length (keys c) - 1 \<and> kcap c' = kcap c"
  using assms by (auto simp: remove_lru_def aligned_def evict_def Let_def)

lemma aligned_repair: "aligned c \<Longrightarrow> aligned (repair c)"
  by (simp add: aligned_def repair_def)

lemma removeOldest_aligned:
  assumes "aligned c" "keys c \<noteq> []"
  shows "\<exists>c'. removeOldest c = Some c' \<and> aligned c'
            \<and> length (keys c') = length (keys c) - 1 \<and> kcap c' = kcap c"
proof (cases "find_lru c (oldestTick c)")
  case (Some idx)
  then have "idx < length (keys c)"
    using assms(1) scan_Some_less [of "lastUse c" "oldestTick c" idx]
    by (simp add: find_lru_def aligned_def)
  with remove_lru_aligned [OF assms(1)] Some assms(2) show ?thesis
    by (subst removeOldest.simps) simp
next
  case None
  let ?r = "repair c"
  have r: "aligned ?r" "keys ?r = keys c" "kcap ?r = kcap c"
    using assms(1) by (simp_all add: aligned_repair) (simp_all add: repair_def)
  have "lastUse c \<noteq> []" using assms by (auto simp: aligned_def)
  then have f: "find_lru ?r (oldestTick ?r) = Some 0" by (rule find_repair_zero)
  have "0 < length (keys ?r)" using assms(2) r by simp
  from remove_lru_aligned [OF r(1) this] obtain c' where
    c': "remove_lru ?r 0 = Some c'" "aligned c'" "length (keys c') = length (keys c) - 1"
      "kcap c' = kcap c"
    using r by auto
  have "removeOldest ?r = Some c'"
    using f c'(1) assms(2) r(2) by (subst removeOldest.simps) simp
  then have "removeOldest c = Some c'"
    using None assms(2) by (subst removeOldest.simps) simp
  with c' show ?thesis by simp
qed

lemma rebase_from_frame:
  "keys (rebase_from i t c) = keys c \<and> vals (rebase_from i t c) = vals c
   \<and> kcap (rebase_from i t c) = kcap c \<and> calls (rebase_from i t c) = calls c
   \<and> evicted (rebase_from i t c) = evicted c
   \<and> length (lastUse (rebase_from i t c)) = length (lastUse c)"
proof (induction i t c rule: rebase_from.induct)
  case (1 i t c)
  show ?case
  proof (cases "i < length (lastUse c)")
    case False
    then show ?thesis by (simp add: rebase_from.simps [of i t c])
  next
    case True
    show ?thesis
    proof (cases "lastUse c ! i < t")
      case lt: True
      with True show ?thesis by (simp add: rebase_from.simps [of i t c] repair_def)
    next
      case ge: False
      with True 1 show ?thesis by (simp add: rebase_from.simps [of i t c])
    qed
  qed
qed

lemma nextTick_frame:
  "keys (fst (nextTick c)) = keys c \<and> vals (fst (nextTick c)) = vals c
   \<and> kcap (fst (nextTick c)) = kcap c \<and> calls (fst (nextTick c)) = calls c
   \<and> evicted (fst (nextTick c)) = evicted c
   \<and> length (lastUse (fst (nextTick c))) = length (lastUse c)"
  by (simp add: nextTick_def preventTickOverflow_def Let_def rebase_from_frame)

lemma append_lru_fits:
  assumes "fits c"
  shows "\<exists>c'. append_lru grow c key val = Some c' \<and> fits c' \<and> kcap c' = kcap c"
proof -
  have "\<exists>c1. (if length (keys c) \<ge> kcap c then removeOldest c else Some c) = Some c1
          \<and> aligned c1 \<and> length (keys c1) < kcap c \<and> kcap c1 = kcap c"
  proof (cases "length (keys c) \<ge> kcap c")
    case True
    with assms have ne: "keys c \<noteq> []" and al: "aligned c" and eq: "length (keys c) = kcap c"
      by (auto simp: fits_def Len_def)
    from removeOldest_aligned [OF al ne] obtain c' where
      "removeOldest c = Some c'" "aligned c'" "length (keys c') = length (keys c) - 1"
      "kcap c' = kcap c" by blast
    with True eq assms show ?thesis by (simp add: fits_def)
  next
    case False
    with assms show ?thesis by (simp add: fits_def)
  qed
  then obtain c1 where
    c1: "(if length (keys c) \<ge> kcap c then removeOldest c else Some c) = Some c1"
      "aligned c1" "length (keys c1) < kcap c" "kcap c1 = kcap c" by blast
  let ?c2 = "c1\<lparr>keys := keys c1 @ [key],
                 kcap := append_cap grow (length (keys c1)) (kcap c1),
                 vals := vals c1 @ [val]\<rparr>"
  obtain c3 t where n: "nextTick ?c2 = (c3, t)" by (cases "nextTick ?c2")
  with nextTick_frame [of ?c2] have fr: "keys c3 = keys c1 @ [key]" "vals c3 = vals c1 @ [val]"
    "kcap c3 = kcap c" "length (lastUse c3) = length (lastUse c1)"
    using c1 by (simp_all add: append_cap_def)
  have "append_lru grow c key val = Some (c3\<lparr>lastUse := lastUse c3 @ [t]\<rparr>)"
    unfolding append_lru_def using c1(1) n by simp
  moreover have "fits (c3\<lparr>lastUse := lastUse c3 @ [t]\<rparr>)"
    using fr c1 assms by (simp add: fits_def aligned_def Len_def)
  ultimately show ?thesis using fr by simp
qed

lemma Set_lru_fits:
  "fits c \<Longrightarrow> \<exists>c' b. Set_lru grow c key val = Some (c', b) \<and> fits c' \<and> kcap c' = kcap c"
  using append_lru_fits [of c grow key val] by (auto simp: Set_lru_def)

lemma Replace_fits:
  assumes "fits c"
  shows "\<exists>c' b. Replace grow c key val = Some (c', b) \<and> fits c' \<and> kcap c' = kcap c"
proof (cases "scan (keys c) key")
  case None
  with append_lru_fits [OF assms, of grow key val] show ?thesis by (auto simp: Replace_def)
next
  case (Some i)
  then have i: "i < length (keys c)" by (rule scan_Some_less)
  let ?c0 = "c\<lparr>vals := (vals c)[i := val]\<rparr>"
  obtain c1 t where n: "nextTick ?c0 = (c1, t)" by (cases "nextTick ?c0")
  with nextTick_frame [of ?c0] have "keys c1 = keys c" "length (vals c1) = length (vals c)"
    "kcap c1 = kcap c" "length (lastUse c1) = length (lastUse c)" by simp_all
  with Some i n assms show ?thesis
    by (auto simp: Replace_def fits_def aligned_def Len_def evict_def)
qed

lemma Get_fits:
  assumes "fits c"
  shows "\<exists>c' r. Get c key = Some (c', r) \<and> fits c' \<and> kcap c' = kcap c"
proof (cases "scan (keys c) key")
  case None
  with assms show ?thesis by (simp add: Get_def)
next
  case (Some i)
  then have i: "i < length (keys c)" by (rule scan_Some_less)
  obtain c1 t where n: "nextTick c = (c1, t)" by (cases "nextTick c")
  with nextTick_frame [of c] have "keys c1 = keys c" "length (vals c1) = length (vals c)"
    "kcap c1 = kcap c" "length (lastUse c1) = length (lastUse c)" by simp_all
  with Some i n assms show ?thesis
    by (auto simp: Get_def fits_def aligned_def Len_def)
qed

lemma GetOrSet_fits:
  assumes "fits c"
  shows "\<exists>c' r. GetOrSet grow c key setter = Some (c', r) \<and> fits c' \<and> kcap c' = kcap c"
proof -
  from Get_fits [OF assms, of key] obtain c1 r where
    g: "Get c key = Some (c1, r)" "fits c1" "kcap c1 = kcap c" by blast
  show ?thesis
  proof (cases r)
    case (Some v)
    with g show ?thesis by (simp add: GetOrSet_def)
  next
    case None
    obtain val err where s: "setter key = (val, err)" by (cases "setter key")
    show ?thesis
    proof (cases err)
      case e: None
      from append_lru_fits [OF g(2), of grow key val] obtain c2 where
        "append_lru grow c1 key val = Some c2" "fits c2" "kcap c2 = kcap c1" by blast
      with g None s e show ?thesis by (simp add: GetOrSet_def)
    next
      case (Some e)
      with g None s show ?thesis by (simp add: GetOrSet_def)
    qed
  qed
qed

lemma do_ins_fits:
  "fits c \<Longrightarrow> \<exists>c'. do_ins grow c i = Some c' \<and> fits c' \<and> kcap c' = kcap c"
proof (cases i)
  case (InsSet k v)
  assume "fits c"
  from Set_lru_fits [OF this, of grow k v] InsSet show ?thesis by auto
next
  case (InsReplace k v)
  assume "fits c"
  from Replace_fits [OF this, of grow k v] InsReplace show ?thesis by auto
next
  case (InsGetOrSet k setter)
  assume "fits c"
  from GetOrSet_fits [OF this, of grow k setter] InsGetOrSet show ?thesis by auto
qed

lemma run_ins_fits:
  "fits c \<Longrightarrow> \<exists>c'. run_ins grow ops c = Some c' \<and> fits c' \<and> kcap c' = kcap c"
proof (induction ops arbitrary: c)
  case Nil
  then show ?case by simp
next
  case (Cons i ops)
  from do_ins_fits [OF Cons.prems, of grow i] obtain c1 where
    c1: "do_ins grow c i = Some c1" "fits c1" "kcap c1 = kcap c" by blast
  from Cons.IH [OF c1(2)] c1 show ?case by auto
qed

text \<open>
  The capacity bound: after any run of \<open>Set\<close>, \<open>Replace\<close> and \<open>GetOrSet\<close> calls on a
  cache made with a positive capacity that \<open>make\<close> accepts, every call has returned and \<open>Len\<close> is at most
  that capacity.
\<close>

lemma Len_le_capacity:
  assumes "0 < capacity" "capacity \<le> make_limit"
  shows "\<exists>c c'. New capacity ev = Some c \<and> run_ins grow ops c = Some c'
            \<and> Len c' \<le> nat capacity"
proof -
  from assms have n: "New capacity ev = Some \<lparr>keys = [], vals = [], lastUse = [], tick = 0,
      kcap = nat capacity, evicted = ev, calls = []\<rparr>" (is "_ = Some ?c")
    by (simp add: New_def)
  from assms have "fits ?c" by (simp add: fits_def aligned_def Len_def)
  from run_ins_fits [OF this, of grow ops] n show ?thesis by (auto simp: fits_def)
qed

section \<open>The example of the package\<close>

text \<open>
  C3. A cache of capacity 8 with an eviction callback, \<open>Replace\<close> called for the keys
  1 to 10 in order: the callback is called for the keys 1 and 2, in that order, and
  for nothing else; afterwards \<open>Len\<close> is 8 and \<open>IterateAsc\<close> yields the keys 3 to 10
  in order.
\<close>

theorem Example_output:
  "Example grow =
     Some ([(1, ()), (2, ())], 8,
           [(3, ()), (4, ()), (5, ()), (6, ()), (7, ()), (8, ()), (9, ()), (10, ())])"
  unfolding Example_def by code_simp


section \<open>Eviction at capacity\<close>

text \<open>
  C1, at a run the claim covers. Capacity 3, \<open>Set\<close> for the keys 1 to 4 (the fourth
  evicts key 1), then \<open>Replace\<close> of the live key 4: the cache is full (\<open>Len\<close> equals
  the capacity) with keys 3, 2, 4 and ticks 2, 1, 4, so the smallest tick belongs to
  key 2. The next insertion, \<open>Set\<close> of key 5, succeeds and removes exactly one entry,
  but it is key 3 and not key 2. (That \<open>Len\<close> never exceeds the capacity is
  \<open>Len_le_capacity\<close>.)
\<close>

theorem eviction_after_Replace_not_smallest_tick:
  "do { c \<leftarrow> New 3 True;
        c \<leftarrow> Set_each grow [1, 2, 3, 4 :: int] () c;
        (c, _) \<leftarrow> Replace grow c 4 ();
        (c', inserted) \<leftarrow> Set_lru grow c 5 ();
        Some (keys c, lastUse c, Len c = kcap c, spec_smallest_tick_key c, calls c,
              inserted, keys c', calls c') }
   = Some ([3, 2, 4], [2, 1, 4], True, Some 2, [(1, ()), (4, ())],
           True, [4, 2, 5], [(1, ()), (4, ()), (3, ())])"
  by code_simp

section \<open>Iteration in recency order\<close>

text \<open>
  C2, at a run the claim covers. Capacity 3, \<open>Set\<close> for the keys 1, 2, 3, then
  \<open>Get\<close> of key 2. The keys in the order of their most recent touch are 1, 3, 2.
  \<open>IterateAsc\<close> yields nothing and \<open>IterateDesc\<close> yields only 2, 3: the ticks are
  0, 3, 2 under the clock 4, and no entry holds the tick 1 at which the ascending walk
  starts and the descending walk ends.
\<close>

theorem IterateAsc_after_Get_ends_early:
  "do { c \<leftarrow> New 3 True;
        c \<leftarrow> Set_each grow [1, 2, 3 :: int] () c;
        (c, _) \<leftarrow> Get c 2;
        asc \<leftarrow> IterateAsc c;
        desc \<leftarrow> IterateDesc c;
        Some (keys c, lastUse c, tick c, map fst asc, map fst desc,
              spec_touch_order [1, 2, 3, 2] (keys c)) }
   = Some ([1, 2, 3], [0, 3, 2], 4, [], [2, 3], [1, 3, 2])"
  by code_simp

section \<open>Resize\<close>

text \<open>
  C4, at the claim's input. Capacity 5, \<open>Set\<close> for the keys 1 to 5 (\<open>IterateAsc\<close>
  yields 1 to 5), then \<open>Resize\<close> to 3: the callback is called for the keys 1 and 2,
  oldest first, and the keys 5, 4, 3 stay with their ticks 4, 3, 2; but the clock is 0
  afterwards and \<open>IterateAsc\<close> yields nothing instead of 3, 4, 5.
\<close>

theorem Resize_shrink_IterateAsc_empty:
  "do { c \<leftarrow> New 5 True;
        c \<leftarrow> Set_each grow [1, 2, 3, 4, 5 :: int] () c;
        asc0 \<leftarrow> IterateAsc c;
        c \<leftarrow> Resize grow 3 c;
        asc \<leftarrow> IterateAsc c;
        Some (map fst asc0, calls c, keys c, lastUse c, tick c, map fst asc) }
   = Some ([1, 2, 3, 4, 5], [(1, ()), (2, ())], [5, 4, 3], [4, 3, 2], 0, [])"
  by code_simp

text \<open>
  C5, at an input the claim covers. Capacity 2 holding key 1 (clock 1, tick 0),
  \<open>Resize\<close> to 3, which is above the occupancy: the entry keeps its tick 0, but the
  clock is 0 after the call, not 1.
\<close>

theorem Resize_zeroes_tick:
  "do { c \<leftarrow> New 2 True;
        (c, _) \<leftarrow> Set_lru grow c (1 :: int) ();
        c' \<leftarrow> Resize grow 3 c;
        Some (Len c, tick c, lastUse c, keys c', tick c', lastUse c') }
   = Some (1, 1, [0], [1], 0, [0])"
  by code_simp

text \<open>
  C6, at a state the public operations reach. After \<open>New\<close> with capacity 2 and
  \<open>Set\<close> of key 1 every tick is below the clock; after \<open>Resize\<close> to 3 the live slot
  holds the tick 0 under the clock 0, so the invariant no longer holds.
\<close>

theorem Resize_breaks_ticks_below_clock:
  "do { c \<leftarrow> New 2 True;
        (c, _) \<leftarrow> Set_lru grow c (1 :: int) ();
        c' \<leftarrow> Resize grow 3 c;
        Some (ticks_below_clock c, lastUse c', tick c', ticks_below_clock c') }
   = Some (True, [0], 0, False)"
  by code_simp

section \<open>Has and Get\<close>

text \<open>
  \<open>Has\<close> returns a flag and no new cache: it only reads. \<open>Get\<close> on a miss returns
  the cache as it was. \<open>Get\<close> on a hit returns the value of the slot and stamps the slot
  with the tick just issued, the clock minus one; keys, values, capacity and callback
  log stay.
\<close>

lemma Get_miss_keeps: "\<not> Has c key \<Longrightarrow> Get c key = Some (c, None)"
  by (simp add: Get_def Has_def)

lemma Get_hit_stamps:
  assumes "scan (keys c) key = Some i" "aligned c"
  shows "\<exists>c'. Get c key = Some (c', Some (vals c ! i))
           \<and> lastUse c' ! i = tick c' - 1
           \<and> keys c' = keys c \<and> vals c' = vals c \<and> kcap c' = kcap c \<and> calls c' = calls c"
proof -
  from assms(1) have i: "i < length (keys c)" by (rule scan_Some_less)
  obtain c1 t where n: "nextTick c = (c1, t)" by (cases "nextTick c")
  then have t: "t = tick c1 - 1" by (auto simp: nextTick_def Let_def)
  from n nextTick_frame [of c] have fr: "keys c1 = keys c" "vals c1 = vals c"
    "kcap c1 = kcap c" "calls c1 = calls c" "length (lastUse c1) = length (lastUse c)"
    by simp_all
  with assms i n t show ?thesis by (simp add: Get_def aligned_def)
qed

text \<open>
  Where the two ticks are the two values just below the clock (A's below B's, in either
  slot order, as after inserting A and then B into a fresh cache), a cache of capacity
  2 behaves as an LRU cache should: \<open>Has\<close> of A finds it, the insertion of a new key C
  then evicts A, and after \<open>Get\<close> of A the insertion of C evicts B.
\<close>

lemma Has_Get_on_tick_window:
  assumes "A \<noteq> B" "C \<noteq> A" "C \<noteq> B"
    and "kcap c = 2" "evicted c"
    and "(keys c = [A, B] \<and> vals c = [va, vb] \<and> lastUse c = [t, t + 1])
         \<or> (keys c = [B, A] \<and> vals c = [vb, va] \<and> lastUse c = [t + 1, t])"
    and "tick c = t + 2" "t + 2 \<noteq> - 1" "t + 3 \<noteq> - 1"
  shows "Has c A
       \<and> do { (c', _) \<leftarrow> Set_lru grow c C vc; Some (calls c', set (keys c')) }
           = Some (calls c @ [(A, va)], {B, C})
       \<and> do { (c1, r) \<leftarrow> Get c A; (c', _) \<leftarrow> Set_lru grow c1 C vc;
              Some (r, calls c', set (keys c')) }
           = Some (Some va, calls c @ [(B, vb)], {A, C})"
  using assms
  by (auto simp: Set_lru_def Has_def scan_def append_lru_def append_cap_def nextTick_def
      preventTickOverflow_def Get_def removeOldest.simps find_lru_def oldestTick_def Len_def
      remove_lru_def evict_def Let_def)

lemma Has_Get_on_fresh_history:
  assumes "A \<noteq> B" "C \<noteq> A" "C \<noteq> B"
  shows "do { c \<leftarrow> New 2 True;
              (c, _) \<leftarrow> Set_lru grow c A va;
              (c, _) \<leftarrow> Set_lru grow c B vb;
              let h = Has c A;
              (c, _) \<leftarrow> Set_lru grow c C vc;
              Some (h, calls c, keys c) } = Some (True, [(A, va)], [B, C])
       \<and> do { c \<leftarrow> New 2 True;
              (c, _) \<leftarrow> Set_lru grow c A va;
              (c, _) \<leftarrow> Set_lru grow c B vb;
              (c, r) \<leftarrow> Get c A;
              (c, _) \<leftarrow> Set_lru grow c C vc;
              Some (r, calls c, keys c) } = Some (Some va, [(B, vb)], [A, C])"
  using assms
  by (simp add: New_def make_limit_def Set_lru_def Has_def scan_def append_lru_def
      append_cap_def nextTick_def preventTickOverflow_def Get_def removeOldest.simps
      find_lru_def oldestTick_def Len_def remove_lru_def evict_def Let_def)

text \<open>
  C7, at two caches of capacity 2 holding A = 1 (older) and B = 2 (newer), with C = 3.
  \<open>Has\<close> only reads and \<open>Get\<close> on a hit stamps the key with the newest tick, but the
  evictions the claim tells of do not follow in every such cache.
  First run: \<open>Set\<close> of 2, \<open>Set\<close> of 1, \<open>Get\<close> of 2 twice. The cache holds the keys
  2, 1 with the ticks 3, 1 under the clock 4, so key 1 is the older one. \<open>Has\<close> of 1
  is true, and the insertion of 3 evicts the newer key 2, not key 1.
  Second run: capacity 5, \<open>Set\<close> of 1, \<open>Set\<close> of 2, \<open>Resize\<close> to 2. The cache holds
  the keys 1, 2 with the ticks 0, 1 under the clock 0. \<open>Get\<close> of 1 returns its value
  and stamps it with the tick 0 again, and the insertion of 3 evicts key 1, not key 2.
\<close>

theorem Has_Get_then_insert_evicts_wrong_key:
  "do { c \<leftarrow> New 2 True;
        (c, _) \<leftarrow> Set_lru grow c (2 :: int) (20 :: int);
        (c, _) \<leftarrow> Set_lru grow c 1 10;
        (c, _) \<leftarrow> Get c 2;
        (c, _) \<leftarrow> Get c 2;
        let h = Has c 1;
        (c', inserted) \<leftarrow> Set_lru grow c 3 30;
        Some (kcap c, keys c, lastUse c, tick c, spec_smallest_tick_key c, h,
              inserted, calls c', keys c') }
   = Some (2, [2, 1], [3, 1], 4, Some 1, True, True, [(2, 20)], [1, 3])
   \<and> do { c \<leftarrow> New 5 True;
        (c, _) \<leftarrow> Set_lru grow c (1 :: int) (10 :: int);
        (c, _) \<leftarrow> Set_lru grow c 2 20;
        c \<leftarrow> Resize grow 2 c;
        (c1, r) \<leftarrow> Get c 1;
        (c', inserted) \<leftarrow> Set_lru grow c1 3 30;
        Some (kcap c, keys c, lastUse c, tick c, spec_smallest_tick_key c, r, lastUse c1,
              inserted, calls c', keys c') }
   = Some (2, [1, 2], [0, 1], 0, Some 1, Some 10, [0, 1], True, [(1, 10)], [2, 3])"
  by code_simp

section \<open>GetOrSet with a failing setter\<close>

text \<open>
  C8, as amended. When the key is not in the cache and the setter returns an error,
  \<open>GetOrSet\<close> returns the value and the error exactly as the setter returned them
  (the zero value only if the setter returned it), and the cache is what it was before
  the call: nothing is inserted, nothing evicted, no tick issued.
\<close>

theorem GetOrSet_setter_error:
  assumes "\<not> Has c key" "snd (setter key) \<noteq> None"
  shows "GetOrSet grow c key setter = Some (c, setter key)"
  using assms by (auto simp: GetOrSet_def Get_def Has_def split: prod.splits)

text \<open>C8 as amended, at the cache holding (1, 10), the key 5 and the failing setter.\<close>

theorem GetOrSet_setter_error_witness:
  "\<not> Has cache1 5 \<and> snd (failing_setter 5) \<noteq> None
   \<and> GetOrSet id cache1 5 failing_setter = Some (cache1, 7, Some ''boom'')"
proof -
  have h: "\<not> Has cache1 5" by (simp add: Has_def scan_def cache1_def)
  have e: "snd (failing_setter 5) \<noteq> None" by (simp add: failing_setter_def)
  from GetOrSet_setter_error [of cache1 5 failing_setter id] h e show ?thesis
    by (simp add: failing_setter_def)
qed

text \<open>
  C8 as stated fails: on the fresh cache, with the key 5 absent and a setter that
  returns the value 7 together with an error, \<open>GetOrSet\<close> returns 7 and the error, not
  the zero value 0 of Go's \<open>int\<close>.
\<close>

theorem GetOrSet_error_value_not_zero:
  "\<not> Has cache0 5 \<and> snd (failing_setter 5) = Some ''boom''
   \<and> GetOrSet id cache0 5 failing_setter = Some (cache0, 7, Some ''boom'')
   \<and> GetOrSet id cache0 5 failing_setter \<noteq> Some (cache0, 0, Some ''boom'')"
  by (simp add: cache0_def Has_def scan_def failing_setter_def GetOrSet_def Get_def)

section \<open>Repair and storage order\<close>

text \<open>
  C10. The repair pass gives the live slots the ticks 0 to n - 1 in storage order,
  whatever their ticks were, and sets the clock to n, so that \<open>IterateAsc\<close> right
  after a repair is \<open>Iterate\<close>, the storage order. And there is a run with a \<open>Remove\<close>
  of a key that is not the oldest, followed by insertions, where this shows: capacity 4,
  \<open>Set\<close> for the keys 1 to 6, \<open>Remove\<close> of key 4 (key 3 holds the smallest tick),
  \<open>Set\<close> of 7 and of 8. Before the last insertion the slots hold the keys 6, 5, 3, 7
  and no slot holds the oldest tick of the window, so the insertion repairs and evicts
  the key 6 of slot 0; afterwards \<open>IterateAsc\<close> yields 5, 3, 7, 8, while the order of
  the most recent touches is 3, 5, 7, 8, and the next insertion evicts key 5, not the
  least recently touched key 3.
\<close>

theorem repair_storage_order:
  "(aligned c \<and> length (keys c) \<le> 2 ^ 64 \<longrightarrow>
      lastUse (repair c) = map of_nat [0..<length (keys c)]
      \<and> tick (repair c) = of_nat (length (keys c))
      \<and> IterateAsc (repair c) = Iterate c)
   \<and> do { c \<leftarrow> New 4 True;
          c \<leftarrow> Set_each grow [1, 2, 3, 4, 5, 6 :: int] () c;
          (c0, removed) \<leftarrow> Remove c 4;
          (c1, _) \<leftarrow> Set_lru grow c0 7 ();
          (c2, _) \<leftarrow> Set_lru grow c1 8 ();
          asc \<leftarrow> IterateAsc c2;
          (c3, _) \<leftarrow> Set_lru grow c2 9 ();
          Some (spec_smallest_tick_key c, removed, keys c1, lastUse c1,
                find_lru c1 (oldestTick c1), calls c1, calls c2, map fst asc,
                spec_touch_order [1, 2, 3, 4, 5, 6, 7, 8] (keys c2), calls c3) }
     = Some (Some 3, True, [6, 5, 3, 7], [5, 4, 2, 6], None,
             [(1, ()), (2, ()), (4, ())], [(1, ()), (2, ()), (4, ()), (6, ())],
             [5, 3, 7, 8], [3, 5, 7, 8],
             [(1, ()), (2, ()), (4, ()), (6, ()), (5, ())])"
proof (intro conjI impI)
  assume a: "aligned c \<and> length (keys c) \<le> 2 ^ 64"
  then show "lastUse (repair c) = map of_nat [0..<length (keys c)]"
    by (simp add: repair_def aligned_def)
  show "tick (repair c) = of_nat (length (keys c))"
    by (simp add: repair_def Len_def)
  from a show "IterateAsc (repair c) = Iterate c"
    by (simp add: IterateAsc_repair Iterate_def aligned_def)
next
  show "do { c \<leftarrow> New 4 True;
          c \<leftarrow> Set_each grow [1, 2, 3, 4, 5, 6 :: int] () c;
          (c0, removed) \<leftarrow> Remove c 4;
          (c1, _) \<leftarrow> Set_lru grow c0 7 ();
          (c2, _) \<leftarrow> Set_lru grow c1 8 ();
          asc \<leftarrow> IterateAsc c2;
          (c3, _) \<leftarrow> Set_lru grow c2 9 ();
          Some (spec_smallest_tick_key c, removed, keys c1, lastUse c1,
                find_lru c1 (oldestTick c1), calls c1, calls c2, map fst asc,
                spec_touch_order [1, 2, 3, 4, 5, 6, 7, 8] (keys c2), calls c3) }
     = Some (Some 3, True, [6, 5, 3, 7], [5, 4, 2, 6], None,
             [(1, ()), (2, ()), (4, ())], [(1, ()), (2, ()), (4, ()), (6, ())],
             [5, 3, 7, 8], [3, 5, 7, 8],
             [(1, ()), (2, ()), (4, ()), (6, ()), (5, ())])"
    by code_simp
qed

text \<open>
  C10 at the cache with the keys 6, 5, 3, 7 and the ticks 5, 4, 2, 6: after the repair
  the ascending iteration is the storage order 6, 5, 3, 7.
\<close>

theorem repair_storage_order_witness:
  "aligned cache_gap \<and> length (keys cache_gap) \<le> 2 ^ 64
   \<and> lastUse (repair cache_gap) = [0, 1, 2, 3]
   \<and> tick (repair cache_gap) = 4
   \<and> IterateAsc (repair cache_gap) = Some [(6, ()), (5, ()), (3, ()), (7, ())]"
proof -
  have a: "aligned cache_gap \<and> length (keys cache_gap) \<le> 2 ^ 64"
    by (simp add: aligned_def cache_gap_def)
  have u: "[0..<4] = [0, 1, 2, 3 :: nat]" by (simp add: upt_rec)
  from repair_storage_order [of cache_gap id] a
  have "lastUse (repair cache_gap) = map of_nat [0..<length (keys cache_gap)]
      \<and> tick (repair cache_gap) = of_nat (length (keys cache_gap))
      \<and> IterateAsc (repair cache_gap) = Iterate cache_gap"
    by blast
  with a u show ?thesis by (simp add: cache_gap_def Iterate_def)
qed

end
